theory Spec2Isabelle
  imports Main "HOL-Library.Word"
begin

unbundle bit_operations_syntax

section \<open>MD_REncoder: the quadrature decoder and its speed estimator\<close>

text \<open>
  A shallow embedding of \<^verbatim>\<open>MD_REncoder.cpp\<close> and \<^verbatim>\<open>MD_REncoder.h\<close>. The fields of the
  class keep their C types: \<^verbatim>\<open>uint8_t\<close>, \<^verbatim>\<open>uint16_t\<close> and \<^verbatim>\<open>uint32_t\<close> are words of
  that width, so that every addition, subtraction and product wraps as it does on the
  microcontroller.
\<close>

type_synonym u8 = "8 word"
type_synonym u16 = "16 word"
type_synonym u32 = "32 word"

subsection \<open>Constants of the header\<close>

definition DEFAULT_PERIOD :: u16 where "DEFAULT_PERIOD = 500"

definition DIR_NONE :: u8 where "DIR_NONE = 0x00"
definition DIR_CW :: u8 where "DIR_CW = 0x10"
definition DIR_CCW :: u8 where "DIR_CCW = 0x20"

subsection \<open>The state tables\<close>

text \<open>
  \<^verbatim>\<open>ENABLE_HALF_STEP\<close> selects one of two tables when the library is compiled. The two
  branches of the \<^verbatim>\<open>#if\<close> reuse the names \<^verbatim>\<open>R_CW_BEGIN\<close> and \<^verbatim>\<open>R_CCW_BEGIN\<close> with
  different values; the half-step ones carry the suffix \<open>_H\<close> here.
\<close>

datatype step_mode = FullStep | HalfStep

definition R_START :: u8 where "R_START = 0x0"

definition R_CCW_BEGIN_H :: u8 where "R_CCW_BEGIN_H = 0x1"
definition R_CW_BEGIN_H :: u8 where "R_CW_BEGIN_H = 0x2"
definition R_START_M :: u8 where "R_START_M = 0x3"
definition R_CW_BEGIN_M :: u8 where "R_CW_BEGIN_M = 0x4"
definition R_CCW_BEGIN_M :: u8 where "R_CCW_BEGIN_M = 0x5"

definition R_CW_FINAL :: u8 where "R_CW_FINAL = 0x1"
definition R_CW_BEGIN :: u8 where "R_CW_BEGIN = 0x2"
definition R_CW_NEXT :: u8 where "R_CW_NEXT = 0x3"
definition R_CCW_BEGIN :: u8 where "R_CCW_BEGIN = 0x4"
definition R_CCW_FINAL :: u8 where "R_CCW_FINAL = 0x5"
definition R_CCW_NEXT :: u8 where "R_CCW_NEXT = 0x6"

text \<open>Rows are states, columns the pin states 00, 01, 10, 11 from left to right.\<close>

definition ttable_half :: "u8 list list" where
  "ttable_half =
    [[R_START_M,             R_CW_BEGIN_H,  R_CCW_BEGIN_H, R_START],
     [R_START_M OR DIR_CCW,  R_START,       R_CCW_BEGIN_H, R_START],
     [R_START_M OR DIR_CW,   R_CW_BEGIN_H,  R_START,       R_START],
     [R_START_M,             R_CCW_BEGIN_M, R_CW_BEGIN_M,  R_START],
     [R_START_M,             R_START_M,     R_CW_BEGIN_M,  R_START OR DIR_CW],
     [R_START_M,             R_CCW_BEGIN_M, R_START_M,     R_START OR DIR_CCW]]"

definition ttable_full :: "u8 list list" where
  "ttable_full =
    [[R_START,    R_CW_BEGIN,  R_CCW_BEGIN, R_START],
     [R_CW_NEXT,  R_START,     R_CW_FINAL,  R_START OR DIR_CW],
     [R_CW_NEXT,  R_CW_BEGIN,  R_START,     R_START],
     [R_CW_NEXT,  R_CW_BEGIN,  R_CW_FINAL,  R_START],
     [R_CCW_NEXT, R_START,     R_CCW_BEGIN, R_START],
     [R_CCW_NEXT, R_CCW_FINAL, R_START,     R_START OR DIR_CCW],
     [R_CCW_NEXT, R_CCW_FINAL, R_CCW_BEGIN, R_START]]"

fun ttable :: "step_mode \<Rightarrow> u8 list list" where
  "ttable HalfStep = ttable_half"
| "ttable FullStep = ttable_full"

text \<open>
  \<^verbatim>\<open>ttable[row][col]\<close>. C does not check the bounds of an array; a read outside the
  table is undefined behaviour and is the value \<open>None\<close> here.
\<close>

definition ttable_at :: "u8 list list \<Rightarrow> nat \<Rightarrow> nat \<Rightarrow> u8 option" where
  "ttable_at t row col =
     (if row < length t
      then (if col < length (t ! row) then Some (t ! row ! col) else None)
      else None)"

text \<open>The lookup of \<^verbatim>\<open>read()\<close>: \<^verbatim>\<open>ttable[_state & 0xf][pinstate]\<close>.\<close>

definition transition :: "step_mode \<Rightarrow> u8 \<Rightarrow> u8 \<Rightarrow> u8 option" where
  "transition m s p = ttable_at (ttable m) (unat (s AND 0xf)) (unat p)"

subsection \<open>The object\<close>

record encoder =
  pinA :: u8
  pinB :: u8
  state :: u8
  period :: u16
  count :: u16
  spd :: u16
  timeLast :: u32

text \<open>The constructor \<^verbatim>\<open>MD_REncoder(pinA, pinB)\<close>, with \<^verbatim>\<open>ENABLE_SPEED\<close> set.\<close>

definition MD_REncoder :: "u8 \<Rightarrow> u8 \<Rightarrow> encoder" where
  "MD_REncoder a b =
     \<lparr>pinA = a, pinB = b, state = R_START,
      period = DEFAULT_PERIOD, count = 0, spd = 0, timeLast = 0\<rparr>"

text \<open>\<^verbatim>\<open>setPeriod\<close> and \<^verbatim>\<open>speed\<close>, the two inline methods of the header.\<close>

definition setPeriod :: "u16 \<Rightarrow> encoder \<Rightarrow> encoder" where
  "setPeriod t e = (if t \<noteq> 0 \<and> t \<le> 1000 then e\<lparr>period := t\<rparr> else e)"

definition speed :: "encoder \<Rightarrow> u16" where
  "speed e = spd e"

subsection \<open>read\<close>

text \<open>
  \<^verbatim>\<open>(digitalRead(_pinB) << 1) | digitalRead(_pinA)\<close>: the two line levels are inputs of
  the model, \<open>True\<close> for \<^verbatim>\<open>HIGH\<close>.
\<close>

definition pinstate :: "bool \<Rightarrow> bool \<Rightarrow> u8" where
  "pinstate a b = push_bit 1 (of_bool b) OR of_bool a"

text \<open>
  \<^verbatim>\<open>read()\<close> calls \<^verbatim>\<open>millis()\<close> twice: \<open>t1\<close> is the value compared with the period and
  \<open>t2\<close> the value stored in \<^verbatim>\<open>_timeLast\<close>. The result is the returned byte and the
  object after the call, or \<open>None\<close> where C leaves the behaviour undefined: a table
  read out of bounds, or the division \<^verbatim>\<open>1000/_period\<close> with a zero period.
\<close>

definition read :: "step_mode \<Rightarrow> bool \<Rightarrow> bool \<Rightarrow> u32 \<Rightarrow> u32 \<Rightarrow> encoder \<Rightarrow> (u8 \<times> encoder) option" where
  "read m a b t1 t2 e =
     (case transition m (state e) (pinstate a b) of
        None \<Rightarrow> None
      | Some st \<Rightarrow>
          (let e1 = e\<lparr>state := st\<rparr>;
               e2 = (if st AND 0x30 \<noteq> 0 then e1\<lparr>count := count e1 + 1\<rparr> else e1)
           in if ucast (period e2) \<le> t1 - timeLast e2
              then (if period e2 = 0 then None
                    else Some (st AND 0x30,
                               e2\<lparr>spd := count e2 * (1000 div period e2),
                                  timeLast := t2,
                                  count := 0\<rparr>))
              else Some (st AND 0x30, e2)))"

text \<open>
  A run of polls, as the \<^verbatim>\<open>loop()\<close> of the polling example makes them: each element
  gives the levels of line A and line B and the two clock readings of one call. The
  result lists the returned bytes in order.
\<close>

type_synonym poll = "bool \<times> bool \<times> u32 \<times> u32"

fun reads :: "step_mode \<Rightarrow> poll list \<Rightarrow> encoder \<Rightarrow> (u8 list \<times> encoder) option" where
  "reads m [] e = Some ([], e)"
| "reads m ((a, b, t1, t2) # ps) e =
     (case read m a b t1 t2 e of
        None \<Rightarrow> None
      | Some (x, e') \<Rightarrow>
          (case reads m ps e' of
             None \<Rightarrow> None
           | Some (xs, e'') \<Rightarrow> Some (x # xs, e'')))"

text \<open>The objects a program can hold: constructed, then any calls of the public methods.\<close>

inductive reachable :: "step_mode \<Rightarrow> encoder \<Rightarrow> bool" for m :: step_mode where
  reach_new: "reachable m (MD_REncoder a b)"
| reach_read: "reachable m e \<Longrightarrow> read m a b t1 t2 e = Some (x, e') \<Longrightarrow> reachable m e'"
| reach_setPeriod: "reachable m e \<Longrightarrow> reachable m (setPeriod t e)"

subsection \<open>The decoder alone\<close>

text \<open>
  The state byte and the returned byte of \<^verbatim>\<open>read()\<close> depend on the table and the pin
  states only. \<open>decode\<close> runs that part over a list of pin states; \<open>reads_decode\<close>
  below relates it to \<open>reads\<close>.
\<close>

fun decode :: "step_mode \<Rightarrow> u8 \<Rightarrow> u8 list \<Rightarrow> (u8 list \<times> u8) option" where
  "decode m s [] = Some ([], s)"
| "decode m s (p # ps) =
     (case transition m s p of
        None \<Rightarrow> None
      | Some st \<Rightarrow>
          (case decode m st ps of
             None \<Rightarrow> None
           | Some (xs, s') \<Rightarrow> Some ((st AND 0x30) # xs, s')))"

definition pins :: "poll \<Rightarrow> u8" where
  "pins p = (case p of (a, b, t1, t2) \<Rightarrow> pinstate a b)"

text \<open>The bytes that occur in a table: the values \<^verbatim>\<open>_state\<close> can take.\<close>

definition states_of :: "step_mode \<Rightarrow> u8 set" where
  "states_of m = set (concat (ttable m))"

text \<open>
  For the claims on the speed estimator: the first clock reading of a poll, and the number
  of polls of a run that returned a direction.
\<close>

definition poll_time :: "poll \<Rightarrow> u32" where
  "poll_time p = (case p of (a, b, t1, t2) \<Rightarrow> t1)"

definition clicks :: "u8 list \<Rightarrow> nat" where
  "clicks xs = length (filter (\<lambda>x. x \<noteq> DIR_NONE) xs)"

section \<open>Basic facts\<close>

subsection \<open>The tables as numbers\<close>

lemmas dir_defs = DIR_NONE_def DIR_CW_def DIR_CCW_def

lemmas state_defs =
  R_START_def R_CCW_BEGIN_H_def R_CW_BEGIN_H_def R_START_M_def R_CW_BEGIN_M_def
  R_CCW_BEGIN_M_def R_CW_FINAL_def R_CW_BEGIN_def R_CW_NEXT_def R_CCW_BEGIN_def
  R_CCW_FINAL_def R_CCW_NEXT_def

lemma ttable_full_num:
  "ttable_full = [[0,2,4,0],[3,0,1,0x10],[3,2,0,0],[3,2,1,0],[6,0,4,0],[6,5,0,0x20],[6,5,4,0]]"
  by (simp add: ttable_full_def state_defs dir_defs)

lemma ttable_half_num:
  "ttable_half = [[3,2,1,0],[0x23,0,1,0],[0x13,2,0,0],[3,5,4,0],[3,3,4,0x10],[3,5,3,0x20]]"
  by (simp add: ttable_half_def state_defs dir_defs)

lemma pinstate_simps:
  "pinstate False False = 0" "pinstate True False = 1"
  "pinstate False True = 2" "pinstate True True = 3"
  by (simp_all add: pinstate_def)

lemma pinstate_cases: "pinstate a b \<in> {0, 1, 2, 3}"
  by (cases a; cases b) (simp_all add: pinstate_simps)

lemma states_of_Full: "states_of FullStep = {0,1,2,3,4,5,6,0x10,0x20}"
  by (auto simp add: states_of_def ttable_full_num)

lemma states_of_Half: "states_of HalfStep = {0,1,2,3,4,5,0x10,0x20,0x13,0x23}"
  by (auto simp add: states_of_def ttable_half_num)

lemma R_START_states_of: "R_START \<in> states_of m"
  by (cases m) (simp_all add: states_of_Full states_of_Half R_START_def)

lemma transition_Full:
  assumes "s \<in> states_of FullStep" and "p \<in> {0, 1, 2, 3}"
  shows "\<exists>st. transition FullStep s p = Some st \<and> st \<in> states_of FullStep"
  using assms unfolding states_of_Full
  by (auto simp add: transition_def ttable_at_def ttable_full_num)

lemma transition_Half:
  assumes "s \<in> states_of HalfStep" and "p \<in> {0, 1, 2, 3}"
  shows "\<exists>st. transition HalfStep s p = Some st \<and> st \<in> states_of HalfStep"
  using assms unfolding states_of_Half
  by (auto simp add: transition_def ttable_at_def ttable_half_num)

lemma transition_closed:
  assumes "s \<in> states_of m" and "p \<in> {0, 1, 2, 3}"
  shows "\<exists>st. transition m s p = Some st \<and> st \<in> states_of m"
  using assms by (cases m) (simp_all only: transition_Full transition_Half)

lemma row_index_Full: "s \<in> states_of FullStep \<Longrightarrow> unat (s AND 0xf) < 7"
  unfolding states_of_Full by auto

lemma row_index_Half: "s \<in> states_of HalfStep \<Longrightarrow> unat (s AND 0xf) < 6"
  unfolding states_of_Half by auto

lemma length_ttable: "length (ttable FullStep) = 7" "length (ttable HalfStep) = 6"
  by (simp_all add: ttable_full_def ttable_half_def)

lemma read_unfold:
  "read m a b t1 t2 e =
     (case transition m (state e) (pinstate a b) of
        None \<Rightarrow> None
      | Some st \<Rightarrow>
          if ucast (period e) \<le> t1 - timeLast e
          then (if period e = 0 then None
                else Some (st AND 0x30,
                  e\<lparr>state := st, count := 0, timeLast := t2,
                    spd := (count e + (if st AND 0x30 \<noteq> 0 then 1 else 0)) * (1000 div period e)\<rparr>))
          else Some (st AND 0x30,
                  e\<lparr>state := st, count := count e + (if st AND 0x30 \<noteq> 0 then 1 else 0)\<rparr>))"
  by (simp add: read_def Let_def split: option.split)

lemma read_SomeD:
  assumes "read m a b t1 t2 e = Some (x, e')"
  shows "transition m (state e) (pinstate a b) = Some (state e')"
    and "x = state e' AND 0x30"
    and "period e' = period e"
    and "pinA e' = pinA e" and "pinB e' = pinB e"
  using assms by (auto simp add: read_unfold split: option.splits if_splits)

lemma read_total_aux:
  assumes "state e \<in> states_of m" and "period e \<noteq> 0"
  shows "\<exists>x e'. read m a b t1 t2 e = Some (x, e')"
proof -
  obtain st where "transition m (state e) (pinstate a b) = Some st"
    using transition_closed [OF assms(1) pinstate_cases] by blast
  then show ?thesis using assms(2) by (simp add: read_unfold)
qed

lemma reachable_good: "reachable m e \<Longrightarrow> state e \<in> states_of m \<and> period e \<noteq> 0"
proof (induction rule: reachable.induct)
  case (reach_new a b)
  show ?case by (simp add: MD_REncoder_def R_START_states_of DEFAULT_PERIOD_def)
next
  case (reach_read e a b t1 t2 x e')
  from read_SomeD(1,3) [OF reach_read.hyps(2)] reach_read.IH
    transition_closed [of "state e" m "pinstate a b", OF _ pinstate_cases]
  show ?case by auto
next
  case (reach_setPeriod e t)
  then show ?case by (simp add: setPeriod_def)
qed

lemma pins_simp: "pins (a, b, t1, t2) = pinstate a b"
  by (simp add: pins_def)

lemma reads_decode:
  assumes "period e \<noteq> 0"
  shows "map_option (\<lambda>(xs, e'). (xs, state e')) (reads m ps e) = decode m (state e) (map pins ps)"
  using assms
proof (induction ps arbitrary: e)
  case Nil
  show ?case by simp
next
  case (Cons p ps)
  obtain a b t1 t2 where p: "p = (a, b, t1, t2)" by (cases p) auto
  show ?case
  proof (cases "transition m (state e) (pinstate a b)")
    case None
    then show ?thesis by (simp add: p pins_simp read_unfold)
  next
    case (Some st)
    then have "\<exists>x e'. read m a b t1 t2 e = Some (x, e')"
      using Cons.prems by (simp add: read_unfold)
    then obtain x e' where r: "read m a b t1 t2 e = Some (x, e')" by blast
    from read_SomeD [OF r] Some Cons.prems
    have e': "state e' = st" "x = st AND 0x30" "period e' \<noteq> 0" by simp_all
    from Cons.IH [OF e'(3)] e'(1)
    have IH: "decode m st (map pins ps) = map_option (\<lambda>(xs, e'). (xs, state e')) (reads m ps e')"
      by simp
    show ?thesis
      by (cases "reads m ps e'") (auto simp add: p pins_simp r Some e' IH)
  qed
qed

lemma reads_events:
  assumes "period e \<noteq> 0"
  shows "map_option fst (reads m ps e) = map_option fst (decode m (state e) (map pins ps))"
proof -
  have "map_option fst (reads m ps e)
      = map_option fst (map_option (\<lambda>(xs, e'). (xs, state e')) (reads m ps e))"
    by (cases "reads m ps e") auto
  then show ?thesis by (simp only: reads_decode [OF assms])
qed

lemma new_fields:
  "state (MD_REncoder pa pb) = 0" "period (MD_REncoder pa pb) = 500"
  "count (MD_REncoder pa pb) = 0" "spd (MD_REncoder pa pb) = 0"
  "timeLast (MD_REncoder pa pb) = 0"
  by (simp_all add: MD_REncoder_def R_START_def DEFAULT_PERIOD_def)

lemma period_new_nonzero: "period (MD_REncoder pa pb) \<noteq> 0"
  by (simp add: new_fields)

lemmas decode_eval =
  new_fields pins_simp pinstate_simps transition_def ttable_at_def
  ttable_full_num ttable_half_num dir_defs state_defs

lemmas read_eval = read_unfold decode_eval MD_REncoder_def DEFAULT_PERIOD_def

lemma reachable_reads:
  "reachable m e \<Longrightarrow> reads m ps e = Some (xs, e') \<Longrightarrow> reachable m e'"
proof (induction ps arbitrary: e xs)
  case Nil
  then show ?case by simp
next
  case (Cons p ps)
  obtain a b t1 t2 where p: "p = (a, b, t1, t2)" by (cases p) auto
  from Cons.prems(2) obtain x e1 xs1 where
    r: "read m a b t1 t2 e = Some (x, e1)" and rs: "reads m ps e1 = Some (xs1, e')"
    by (auto simp add: p split: option.splits)
  from reach_read [OF Cons.prems(1) r] have "reachable m e1" .
  from Cons.IH [OF this rs] show ?case .
qed

section \<open>Construction and configuration\<close>

text \<open>
  C9, as the code has it. The constructor sets \<^verbatim>\<open>_state\<close> to \<^verbatim>\<open>R_START\<close>, which is 0, and
  the count, the speed and the time of the last boundary to 0. The period is not zero:
  it is set to \<^verbatim>\<open>DEFAULT_PERIOD\<close>, which is 500.
\<close>

theorem construction_fields:
  "state (MD_REncoder pa pb) = R_START \<and> R_START = 0
   \<and> count (MD_REncoder pa pb) = 0 \<and> spd (MD_REncoder pa pb) = 0
   \<and> timeLast (MD_REncoder pa pb) = 0
   \<and> period (MD_REncoder pa pb) = DEFAULT_PERIOD \<and> DEFAULT_PERIOD = 500
   \<and> pinA (MD_REncoder pa pb) = pa \<and> pinB (MD_REncoder pa pb) = pb"
  by (simp add: MD_REncoder_def R_START_def DEFAULT_PERIOD_def)

text \<open>
  C9 as the claim words it does not hold: it is not the case that all four fields of the
  speed estimator are zero after \<^verbatim>\<open>MD_REncoder(2, 3)\<close>.
\<close>

theorem construction_window_not_zero:
  "\<not> (state (MD_REncoder 2 3) = R_START \<and> count (MD_REncoder 2 3) = 0
      \<and> period (MD_REncoder 2 3) = 0 \<and> spd (MD_REncoder 2 3) = 0
      \<and> timeLast (MD_REncoder 2 3) = 0)"
  by (simp add: new_fields)

text \<open>
  C4. \<^verbatim>\<open>setPeriod(t)\<close> stores \<open>t\<close> as the period exactly when \<open>0 < t \<le> 1000\<close> and
  returns the object as it was otherwise; it has no error result. In particular
  \<^verbatim>\<open>setPeriod(0)\<close> and \<^verbatim>\<open>setPeriod(1001)\<close> change nothing, the period after construction
  is 500, and \<^verbatim>\<open>setPeriod(250)\<close> on a new object makes it 250.
\<close>

theorem setPeriod_window:
  "setPeriod t e = (if 0 < t \<and> t \<le> 1000 then e\<lparr>period := t\<rparr> else e)
   \<and> setPeriod 0 e = e \<and> setPeriod 1001 e = e
   \<and> period (MD_REncoder pa pb) = 500
   \<and> period (setPeriod 0 (MD_REncoder pa pb)) = 500
   \<and> period (setPeriod 1001 (MD_REncoder pa pb)) = 500
   \<and> period (setPeriod 250 (MD_REncoder pa pb)) = 250"
  by (simp add: setPeriod_def new_fields word_neq_0_conv)

section \<open>The decoder\<close>

subsection \<open>Every poll is defined\<close>

text \<open>
  C3. For every object reachable from the constructor by calls of \<^verbatim>\<open>read()\<close> and
  \<^verbatim>\<open>setPeriod()\<close>, in either mode, the row index \<^verbatim>\<open>_state & 0xf\<close> is below the number
  of rows of the compiled table (7 in full-step mode, 6 in half-step mode), the pin state is
  below 4, the table lookup is defined, and \<^verbatim>\<open>read()\<close> returns a byte and a new object:
  neither the array read nor the division by the period is undefined.
\<close>

theorem read_total:
  assumes "reachable m e"
  shows "unat (state e AND 0xf) < length (ttable m)
    \<and> length (ttable m) = (case m of FullStep \<Rightarrow> 7 | HalfStep \<Rightarrow> 6)
    \<and> unat (pinstate a b) < 4
    \<and> (\<exists>st. transition m (state e) (pinstate a b) = Some st)
    \<and> (\<exists>x e'. read m a b t1 t2 e = Some (x, e'))"
proof -
  from reachable_good [OF assms] have g: "state e \<in> states_of m" "period e \<noteq> 0" by simp_all
  have 1: "unat (state e AND 0xf) < length (ttable m)"
    using g(1) row_index_Full row_index_Half by (cases m) (auto simp only: length_ttable)
  have 2: "length (ttable m) = (case m of FullStep \<Rightarrow> 7 | HalfStep \<Rightarrow> 6)"
    by (cases m) (simp_all only: length_ttable step_mode.case)
  have 3: "unat (pinstate a b) < 4"
    by (cases a; cases b) (simp_all add: pinstate_simps)
  from transition_closed [OF g(1) pinstate_cases]
  have 4: "\<exists>st. transition m (state e) (pinstate a b) = Some st" by blast
  from 1 2 3 4 read_total_aux [OF g] show ?thesis by blast
qed

text \<open>
  An instance: in half-step mode, after the pin states 10 and 00, the state byte is
  \<^verbatim>\<open>R_START_M | DIR_CCW\<close> (0x23); its row index is 3 and the next poll is defined.
\<close>

theorem read_total_witness:
  "reachable HalfStep (MD_REncoder 2 3\<lparr>state := R_START_M OR DIR_CCW, count := 1\<rparr>)
   \<and> unat ((R_START_M OR DIR_CCW) AND 0xf) < length (ttable HalfStep)
   \<and> length (ttable HalfStep) = 6
   \<and> (\<exists>x e'. read HalfStep True False 7 7
         (MD_REncoder 2 3\<lparr>state := R_START_M OR DIR_CCW, count := 1\<rparr>) = Some (x, e'))"
proof -
  have "reads HalfStep [(False, True, 0, 0), (False, False, 0, 0)] (MD_REncoder 2 3)
      = Some ([DIR_NONE, DIR_CCW], MD_REncoder 2 3\<lparr>state := R_START_M OR DIR_CCW, count := 1\<rparr>)"
    by (simp add: read_eval)
  from reachable_reads [OF reach_new this]
  have r: "reachable HalfStep (MD_REncoder 2 3\<lparr>state := R_START_M OR DIR_CCW, count := 1\<rparr>)" .
  from read_total [OF r, of True False 7 7] r show ?thesis by simp
qed

subsection \<open>Full-step mode\<close>

text \<open>
  In a poll \<open>(a, b, t1, t2)\<close> the first component is line A (bit 0 of the pin state) and
  the second line B (bit 1): the pin state 01 is \<open>(True, False, _, _)\<close> and 10 is
  \<open>(False, True, _, _)\<close>.

  What the full-step table does: a direction is returned only on the pin state 11, and the
  cycle that returns \<^verbatim>\<open>DIR_CW\<close> is 11, 01, 00, 10, 11.
\<close>

lemma full_step_event_only_at_11:
  assumes "reachable FullStep e" and "read FullStep a b t1 t2 e = Some (x, e')"
    and "x \<noteq> DIR_NONE"
  shows "a \<and> b"
proof -
  from reachable_good [OF assms(1)] have "state e \<in> states_of FullStep" by simp
  with assms(2,3) show ?thesis unfolding states_of_Full
    by (cases a; cases b) (auto simp add: read_unfold decode_eval split: if_splits)
qed

lemma full_step_cycle_from_11:
  "map_option fst (reads FullStep
      [(True, True, t1, u1), (True, False, t2, u2), (False, False, t3, u3),
       (False, True, t4, u4), (True, True, t5, u5)] (MD_REncoder pa pb))
     = Some [DIR_NONE, DIR_NONE, DIR_NONE, DIR_NONE, DIR_CW]"
  "map_option fst (reads FullStep
      [(True, True, t1, u1), (False, True, t2, u2), (False, False, t3, u3),
       (True, False, t4, u4), (True, True, t5, u5)] (MD_REncoder pa pb))
     = Some [DIR_NONE, DIR_NONE, DIR_NONE, DIR_NONE, DIR_CCW]"
  unfolding reads_events [OF period_new_nonzero] by (simp_all add: decode_eval)

text \<open>
  C1, evaluated on the code. In full-step mode a new object polled with the pin states
  00, 01, 11, 10, 00 returns \<^verbatim>\<open>DIR_NONE\<close> five times, whatever the clock reads: there is
  no \<^verbatim>\<open>DIR_CW\<close> on the last 00. Polled with the reverse sequence 00, 10, 11, 01, 00 it
  returns \<^verbatim>\<open>DIR_NONE\<close> five times as well: there is no \<^verbatim>\<open>DIR_CCW\<close>.
\<close>

theorem full_step_cycle_from_00_no_event:
  "map_option fst (reads FullStep
      [(False, False, t1, u1), (True, False, t2, u2), (True, True, t3, u3),
       (False, True, t4, u4), (False, False, t5, u5)] (MD_REncoder pa pb))
     = Some [DIR_NONE, DIR_NONE, DIR_NONE, DIR_NONE, DIR_NONE]
   \<and> map_option fst (reads FullStep
      [(False, False, t1, u1), (False, True, t2, u2), (True, True, t3, u3),
       (True, False, t4, u4), (False, False, t5, u5)] (MD_REncoder pa pb))
     = Some [DIR_NONE, DIR_NONE, DIR_NONE, DIR_NONE, DIR_NONE]"
  unfolding reads_events [OF period_new_nonzero] by (simp add: decode_eval)

text \<open>
  C2, evaluated on the code. In full-step mode a new object polled with the pin states
  01, 00, 10, 11 returns \<^verbatim>\<open>DIR_CW\<close>, which is not zero, on the fourth poll, and the pin
  state of that poll is 11 (3), not 00.
\<close>

theorem full_step_event_at_11:
  "map_option fst (reads FullStep
      [(True, False, t1, u1), (False, False, t2, u2), (False, True, t3, u3),
       (True, True, t4, u4)] (MD_REncoder pa pb))
     = Some [DIR_NONE, DIR_NONE, DIR_NONE, DIR_CW]
   \<and> DIR_CW \<noteq> DIR_NONE \<and> pinstate True True = 3"
  unfolding reads_events [OF period_new_nonzero] by (simp add: decode_eval)

subsection \<open>Half-step mode\<close>

lemma half_step_event_only_at_rest:
  assumes "reachable HalfStep e" and "read HalfStep a b t1 t2 e = Some (x, e')"
    and "x \<noteq> DIR_NONE"
  shows "a = b"
proof -
  from reachable_good [OF assms(1)] have "state e \<in> states_of HalfStep" by simp
  with assms(2,3) show ?thesis unfolding states_of_Half
    by (cases a; cases b) (auto simp add: read_unfold decode_eval split: if_splits)
qed

lemma half_step_cycle_events:
  "map_option fst (reads HalfStep
      [(False, False, t1, u1), (True, False, t2, u2), (True, True, t3, u3),
       (False, True, t4, u4), (False, False, t5, u5)] (MD_REncoder pa pb))
     = Some [DIR_NONE, DIR_NONE, DIR_CCW, DIR_NONE, DIR_CCW]"
  unfolding reads_events [OF period_new_nonzero] by (simp add: decode_eval)

lemma half_step_reverse_events:
  "map_option fst (reads HalfStep
      [(False, False, t1, u1), (False, True, t2, u2), (True, True, t3, u3),
       (True, False, t4, u4), (False, False, t5, u5)] (MD_REncoder pa pb))
     = Some [DIR_NONE, DIR_NONE, DIR_CW, DIR_NONE, DIR_CW]"
  unfolding reads_events [OF period_new_nonzero] by (simp add: decode_eval)

text \<open>
  C8, as the code has it. In half-step mode a poll of a reachable object returns a
  direction only when both lines read the same (pin state 00 or 11). A new object polled
  with the pin states 00, 01, 11, 10, 00 returns exactly two directions, one on the 11 and
  one on the last 00, and both are \<^verbatim>\<open>DIR_CCW\<close>; polled with the reverse sequence
  00, 10, 11, 01, 00 it returns two directions at the same places, both \<^verbatim>\<open>DIR_CW\<close>.
\<close>

theorem half_step_events:
  "(\<forall>e a b c1 c2 x e'. reachable HalfStep e \<longrightarrow> read HalfStep a b c1 c2 e = Some (x, e')
       \<longrightarrow> x \<noteq> DIR_NONE \<longrightarrow> a = b)
   \<and> map_option fst (reads HalfStep
      [(False, False, t1, u1), (True, False, t2, u2), (True, True, t3, u3),
       (False, True, t4, u4), (False, False, t5, u5)] (MD_REncoder pa pb))
     = Some [DIR_NONE, DIR_NONE, DIR_CCW, DIR_NONE, DIR_CCW]
   \<and> map_option fst (reads HalfStep
      [(False, False, t1, u1), (False, True, t2, u2), (True, True, t3, u3),
       (True, False, t4, u4), (False, False, t5, u5)] (MD_REncoder pa pb))
     = Some [DIR_NONE, DIR_NONE, DIR_CW, DIR_NONE, DIR_CW]"
proof (intro conjI allI impI)
  fix e a b c1 c2 x e'
  assume "reachable HalfStep e" and "read HalfStep a b c1 c2 e = Some (x, e')"
    and "x \<noteq> DIR_NONE"
  then show "a = b" by (rule half_step_event_only_at_rest)
qed (rule half_step_cycle_events half_step_reverse_events)+

text \<open>
  C8 as the claim words it does not hold: on 00, 01, 11, 10, 00 the two directions
  returned are \<^verbatim>\<open>DIR_CCW\<close>, and \<^verbatim>\<open>DIR_CCW\<close> is not \<^verbatim>\<open>DIR_CW\<close>.
\<close>

theorem half_step_cycle_counterclockwise:
  "map_option fst (reads HalfStep
      [(False, False, 0, 0), (True, False, 0, 0), (True, True, 0, 0),
       (False, True, 0, 0), (False, False, 0, 0)] (MD_REncoder 2 3))
     = Some [DIR_NONE, DIR_NONE, DIR_CCW, DIR_NONE, DIR_CCW]
   \<and> DIR_CCW \<noteq> DIR_CW"
  by (simp only: half_step_cycle_events) (simp add: dir_defs)

text \<open>
  An instance of the first part: after 00 and 01 the state is \<^verbatim>\<open>R_CCW_BEGIN_M\<close>, and the
  poll that returns \<^verbatim>\<open>DIR_CCW\<close> there reads 11.
\<close>

theorem half_step_events_witness:
  "reachable HalfStep (MD_REncoder 2 3\<lparr>state := R_CCW_BEGIN_M\<rparr>)
   \<and> read HalfStep True True 0 0 (MD_REncoder 2 3\<lparr>state := R_CCW_BEGIN_M\<rparr>)
       = Some (DIR_CCW, MD_REncoder 2 3\<lparr>state := R_START OR DIR_CCW, count := 1\<rparr>)
   \<and> DIR_CCW \<noteq> DIR_NONE \<and> True = True"
proof -
  have "reads HalfStep [(False, False, 0, 0), (True, False, 0, 0)] (MD_REncoder 2 3)
      = Some ([0, 0], MD_REncoder 2 3\<lparr>state := R_CCW_BEGIN_M\<rparr>)"
    by (simp add: read_eval)
  from reachable_reads [OF reach_new this]
  have r: "reachable HalfStep (MD_REncoder 2 3\<lparr>state := R_CCW_BEGIN_M\<rparr>)" .
  have s: "read HalfStep True True 0 0 (MD_REncoder 2 3\<lparr>state := R_CCW_BEGIN_M\<rparr>)
       = Some (DIR_CCW, MD_REncoder 2 3\<lparr>state := R_START OR DIR_CCW, count := 1\<rparr>)"
    by (simp add: read_eval)
  have n: "DIR_CCW \<noteq> DIR_NONE" by (simp add: dir_defs)
  from half_step_events [THEN conjunct1, rule_format, OF r s n] r s n
  show ?thesis by simp
qed

subsection \<open>A sample polled again, and a sample out of sequence\<close>

lemma transition_settles_Full:
  assumes "s \<in> states_of FullStep" and "p \<in> {0, 1, 2, 3}"
    and "transition FullStep s p = Some s1" and "transition FullStep s1 p = Some s2"
  shows "s2 AND 0x30 = 0 \<and> transition FullStep s2 p = Some s2"
  using assms unfolding states_of_Full
  by (auto simp add: transition_def ttable_at_def ttable_full_num)

lemma transition_settles_Half:
  assumes "s \<in> states_of HalfStep" and "p \<in> {0, 1, 2, 3}"
    and "transition HalfStep s p = Some s1" and "transition HalfStep s1 p = Some s2"
  shows "s2 AND 0x30 = 0 \<and> transition HalfStep s2 p = Some s2"
  using assms unfolding states_of_Half
  by (auto simp add: transition_def ttable_at_def ttable_half_num)

lemma transition_settles:
  assumes "s \<in> states_of m" and "p \<in> {0, 1, 2, 3}"
    and "transition m s p = Some s1" and "transition m s1 p = Some s2"
  shows "s2 AND 0x30 = 0 \<and> transition m s2 p = Some s2"
  using assms transition_settles_Full transition_settles_Half by (cases m) blast+

lemma reads_fixed:
  assumes "transition m s p = Some s" and "s AND 0x30 = 0"
  shows "state e = s \<Longrightarrow> \<forall>q \<in> set ps. pins q = p \<Longrightarrow> reads m ps e = Some (xs, e')
    \<Longrightarrow> (\<forall>x \<in> set xs. x = DIR_NONE) \<and> state e' = s"
proof (induction ps arbitrary: e xs)
  case Nil
  then show ?case by simp
next
  case (Cons q ps)
  obtain a b t1 t2 where q: "q = (a, b, t1, t2)" by (cases q) auto
  from Cons.prems(2) have pq: "pinstate a b = p" and rest: "\<forall>q \<in> set ps. pins q = p"
    by (simp_all add: q pins_simp)
  from Cons.prems(3) obtain x e1 xs1 where
    r: "read m a b t1 t2 e = Some (x, e1)" and rs: "reads m ps e1 = Some (xs1, e')"
    and xs: "xs = x # xs1"
    by (auto simp add: q split: option.splits)
  from read_SomeD(1,2) [OF r] assms Cons.prems(1) pq
  have e1: "state e1 = s" and x: "x = DIR_NONE" by (simp_all add: DIR_NONE_def)
  from Cons.IH [OF e1 rest rs] x xs show ?case by simp
qed

text \<open>
  C6, as the code has it. Take a reachable object, in either mode, and poll it with a pin
  state, then again with the same pin state, then any number of further times with the same
  pin state. The second poll and every later one return \<^verbatim>\<open>DIR_NONE\<close>, and every poll from
  the third on leaves \<^verbatim>\<open>_state\<close> as the second poll left it. (The second poll itself can
  change \<^verbatim>\<open>_state\<close>; see the next theorem.)
\<close>

theorem repeated_poll_settles:
  assumes "reachable m e"
    and "read m a b t1 t2 e = Some (x1, e1)"
    and "read m a b t3 t4 e1 = Some (x2, e2)"
    and "\<forall>q \<in> set ps. pins q = pinstate a b"
    and "reads m ps e2 = Some (xs, e3)"
  shows "x2 = DIR_NONE \<and> (\<forall>x \<in> set xs. x = DIR_NONE) \<and> state e3 = state e2"
proof -
  from reachable_good [OF assms(1)] have s: "state e \<in> states_of m" by simp
  from transition_settles [OF s pinstate_cases read_SomeD(1) [OF assms(2)] read_SomeD(1) [OF assms(3)]]
  have stay: "state e2 AND 0x30 = 0" "transition m (state e2) (pinstate a b) = Some (state e2)"
    by simp_all
  from read_SomeD(2) [OF assms(3)] stay(1) have "x2 = DIR_NONE" by (simp add: DIR_NONE_def)
  with reads_fixed [OF stay(2) stay(1) refl assms(4) assms(5)] show ?thesis by simp
qed

text \<open>
  C6 as the claim words it does not hold. In full-step mode poll a new object with 01 and
  then with 10: the state is \<^verbatim>\<open>R_START\<close>. Poll it with 10 once more: the state is
  \<^verbatim>\<open>R_CCW_BEGIN\<close>. The second of two identical polls has changed the stored state, in its
  low four bits too.
\<close>

theorem repeated_poll_changes_state:
  "reads FullStep [(True, False, 0, 0), (False, True, 0, 0)] (MD_REncoder 2 3)
     = Some ([DIR_NONE, DIR_NONE],
         \<lparr>pinA = 2, pinB = 3, state = R_START, period = 500, count = 0, spd = 0, timeLast = 0\<rparr>)
   \<and> reads FullStep [(True, False, 0, 0), (False, True, 0, 0), (False, True, 0, 0)] (MD_REncoder 2 3)
     = Some ([DIR_NONE, DIR_NONE, DIR_NONE],
         \<lparr>pinA = 2, pinB = 3, state = R_CCW_BEGIN, period = 500, count = 0, spd = 0, timeLast = 0\<rparr>)
   \<and> R_CCW_BEGIN \<noteq> R_START \<and> R_CCW_BEGIN AND 0xf \<noteq> R_START AND 0xf"
  by (simp add: read_eval)

text \<open>
  An instance on the same run: from \<^verbatim>\<open>R_CW_BEGIN\<close> the pin
  state 10 gives \<^verbatim>\<open>R_START\<close>, then \<^verbatim>\<open>R_CCW_BEGIN\<close>, and two more polls with 10 stay there.
\<close>

theorem repeated_poll_settles_witness:
  "reachable FullStep (MD_REncoder 2 3\<lparr>state := R_CW_BEGIN\<rparr>)
   \<and> read FullStep False True 0 0 (MD_REncoder 2 3\<lparr>state := R_CW_BEGIN\<rparr>)
       = Some (DIR_NONE, MD_REncoder 2 3\<lparr>state := R_START\<rparr>)
   \<and> read FullStep False True 5 5 (MD_REncoder 2 3\<lparr>state := R_START\<rparr>)
       = Some (DIR_NONE, MD_REncoder 2 3\<lparr>state := R_CCW_BEGIN\<rparr>)
   \<and> pins (False, True, 2, 2) = pinstate False True
   \<and> pins (False, True, 3, 3) = pinstate False True
   \<and> reads FullStep [(False, True, 2, 2), (False, True, 3, 3)] (MD_REncoder 2 3\<lparr>state := R_CCW_BEGIN\<rparr>)
       = Some ([DIR_NONE, DIR_NONE], MD_REncoder 2 3\<lparr>state := R_CCW_BEGIN\<rparr>)
   \<and> state (MD_REncoder 2 3\<lparr>state := R_CCW_BEGIN\<rparr>) = R_CCW_BEGIN"
proof -
  let ?e = "MD_REncoder 2 3\<lparr>state := R_CW_BEGIN\<rparr>"
  let ?e1 = "MD_REncoder 2 3\<lparr>state := R_START\<rparr>"
  let ?e2 = "MD_REncoder 2 3\<lparr>state := R_CCW_BEGIN\<rparr>"
  have "reads FullStep [(True, False, 0, 0)] (MD_REncoder 2 3) = Some ([DIR_NONE], ?e)"
    by (simp add: read_eval)
  from reachable_reads [OF reach_new this] have r: "reachable FullStep ?e" .
  have p1: "read FullStep False True 0 0 ?e = Some (DIR_NONE, ?e1)"
    by (simp add: read_eval)
  have p2: "read FullStep False True 5 5 ?e1 = Some (DIR_NONE, ?e2)"
    by (simp add: read_eval)
  have same: "\<forall>q \<in> set [(False, True, 2, 2), (False, True, 3, 3)]. pins q = pinstate False True"
    by (simp add: pins_simp)
  have run: "reads FullStep [(False, True, 2, 2), (False, True, 3, 3)] ?e2
      = Some ([DIR_NONE, DIR_NONE], ?e2)"
    by (simp add: read_eval)
  from repeated_poll_settles [OF r p1 p2 same run] r p1 p2 run
  show ?thesis by (simp add: pins_simp)
qed

lemma reads_period: "reads m ps e = Some (xs, e') \<Longrightarrow> period e' = period e"
proof (induction ps arbitrary: e xs)
  case Nil
  then show ?case by simp
next
  case (Cons p ps)
  obtain a b t1 t2 where p: "p = (a, b, t1, t2)" by (cases p) auto
  from Cons.prems obtain x e1 xs1 where
    r: "read m a b t1 t2 e = Some (x, e1)" and rs: "reads m ps e1 = Some (xs1, e')"
    by (auto simp add: p split: option.splits)
  from Cons.IH [OF rs] read_SomeD(3) [OF r] show ?case by simp
qed

lemma jump_resets_Full:
  assumes "s \<in> states_of FullStep"
    and "transition FullStep s (pinstate a b) = Some s1"
    and "s1 AND 0xf \<noteq> 0 \<or> a = b"
    and "transition FullStep s1 (pinstate (\<not> a) (\<not> b)) = Some s2"
  shows "s2 = 0"
  using assms unfolding states_of_Full
  by (cases a; cases b) (auto simp add: transition_def ttable_at_def ttable_full_num pinstate_simps)

lemma reset_run:
  "\<exists>e'. reads FullStep [(False, False, t1, u1), (True, False, t2, u2), (False, True, t3, u3)]
          (MD_REncoder pa pb) = Some ([DIR_NONE, DIR_NONE, DIR_NONE], e')
      \<and> state e' = R_START
      \<and> (\<forall>ps. map_option fst (reads FullStep ps e')
             = map_option fst (reads FullStep ps (MD_REncoder pa pb)))"
proof -
  let ?ps = "[(False, False, t1, u1), (True, False, t2, u2), (False, True, t3, u3)]"
  have "map_option (\<lambda>(xs, e'). (xs, state e')) (reads FullStep ?ps (MD_REncoder pa pb))
      = Some ([DIR_NONE, DIR_NONE, DIR_NONE], R_START)"
    unfolding reads_decode [OF period_new_nonzero] by (simp add: decode_eval)
  then obtain e' where run: "reads FullStep ?ps (MD_REncoder pa pb) = Some ([DIR_NONE, DIR_NONE, DIR_NONE], e')"
    and st: "state e' = R_START"
    by auto
  from reads_period [OF run] have per: "period e' \<noteq> 0" by (simp add: new_fields)
  have "map_option fst (reads FullStep ps e') = map_option fst (reads FullStep ps (MD_REncoder pa pb))" for ps
    unfolding reads_events [OF per] reads_events [OF period_new_nonzero]
    by (simp add: st new_fields R_START_def)
  with run st show ?thesis by blast
qed

text \<open>
  C7, as the code has it, in full-step mode. First: a new object polled with 00, 01 and then
  10 returns \<^verbatim>\<open>DIR_NONE\<close> three times and ends in \<^verbatim>\<open>R_START\<close>, whatever the clock reads, and
  from there every run of polls returns the bytes that the same run returns on a new
  object. Second: let a poll with the lines at \<open>(a, b)\<close> leave a reachable object either in
  a state other than \<^verbatim>\<open>R_START\<close> or at a pin state 00 or 11; then a poll with both lines
  changed returns \<^verbatim>\<open>DIR_NONE\<close> and leaves the state \<^verbatim>\<open>R_START\<close>. (In \<^verbatim>\<open>R_START\<close> at 01 or
  10, where a reset leaves the object, a change of both lines is not a reset; see the next
  theorem.)
\<close>

theorem out_of_sequence_resets:
  "(\<exists>e'. reads FullStep [(False, False, t1, u1), (True, False, t2, u2), (False, True, t3, u3)]
          (MD_REncoder pa pb) = Some ([DIR_NONE, DIR_NONE, DIR_NONE], e')
      \<and> state e' = R_START
      \<and> (\<forall>ps. map_option fst (reads FullStep ps e')
             = map_option fst (reads FullStep ps (MD_REncoder pa pb))))
   \<and> (\<forall>e a b c1 c2 x1 e1 c3 c4 x2 e2.
        reachable FullStep e \<longrightarrow> read FullStep a b c1 c2 e = Some (x1, e1) \<longrightarrow>
        (state e1 AND 0xf \<noteq> R_START \<or> a = b) \<longrightarrow>
        read FullStep (\<not> a) (\<not> b) c3 c4 e1 = Some (x2, e2) \<longrightarrow>
        x2 = DIR_NONE \<and> state e2 = R_START)"
proof (intro conjI allI impI)
  fix e a b c1 c2 x1 e1 c3 c4 x2 e2
  assume r: "reachable FullStep e" and p1: "read FullStep a b c1 c2 e = Some (x1, e1)"
    and pos: "state e1 AND 0xf \<noteq> R_START \<or> a = b"
    and p2: "read FullStep (\<not> a) (\<not> b) c3 c4 e1 = Some (x2, e2)"
  from reachable_good [OF r] have s: "state e \<in> states_of FullStep" by simp
  from pos have pos': "state e1 AND 0xf \<noteq> 0 \<or> a = b" by (simp add: R_START_def)
  from jump_resets_Full [OF s read_SomeD(1) [OF p1] pos' read_SomeD(1) [OF p2]]
  have z: "state e2 = 0" .
  with read_SomeD(2) [OF p2] show "x2 = DIR_NONE" by (simp add: DIR_NONE_def)
  from z show "state e2 = R_START" by (simp add: R_START_def)
qed (rule reset_run)

text \<open>
  C7 as the claim words it does not hold for every change of both lines. In full-step mode
  a new object polled with 01 and then 10 is in \<^verbatim>\<open>R_START\<close>; the next poll reads 01, both
  lines changed at once, and the state advances to \<^verbatim>\<open>R_CW_BEGIN\<close>.
\<close>

theorem jump_after_reset_starts_cycle:
  "reads FullStep [(True, False, 0, 0), (False, True, 0, 0)] (MD_REncoder 2 3)
     = Some ([DIR_NONE, DIR_NONE],
         \<lparr>pinA = 2, pinB = 3, state = R_START, period = 500, count = 0, spd = 0, timeLast = 0\<rparr>)
   \<and> read FullStep True False 0 0
        \<lparr>pinA = 2, pinB = 3, state = R_START, period = 500, count = 0, spd = 0, timeLast = 0\<rparr>
     = Some (DIR_NONE,
         \<lparr>pinA = 2, pinB = 3, state = R_CW_BEGIN, period = 500, count = 0, spd = 0, timeLast = 0\<rparr>)
   \<and> R_CW_BEGIN \<noteq> R_START"
  by (simp add: read_eval)

text \<open>
  An instance of the second part, the one the claim names:
  01 puts a new object in \<^verbatim>\<open>R_CW_BEGIN\<close>, and 10 after it resets to \<^verbatim>\<open>R_START\<close>.
\<close>

theorem out_of_sequence_resets_witness:
  "reachable FullStep (MD_REncoder 2 3)
   \<and> read FullStep True False 0 0 (MD_REncoder 2 3)
       = Some (DIR_NONE, MD_REncoder 2 3\<lparr>state := R_CW_BEGIN\<rparr>)
   \<and> state (MD_REncoder 2 3\<lparr>state := R_CW_BEGIN\<rparr>) AND 0xf \<noteq> R_START
   \<and> read FullStep (\<not> True) (\<not> False) 0 0 (MD_REncoder 2 3\<lparr>state := R_CW_BEGIN\<rparr>)
       = Some (DIR_NONE, MD_REncoder 2 3\<lparr>state := R_START\<rparr>)
   \<and> state (MD_REncoder 2 3\<lparr>state := R_START\<rparr>) = R_START"
proof -
  let ?e1 = "MD_REncoder 2 3\<lparr>state := R_CW_BEGIN\<rparr>"
  let ?e2 = "MD_REncoder 2 3\<lparr>state := R_START\<rparr>"
  have r: "reachable FullStep (MD_REncoder 2 3)" by (rule reach_new)
  have p1: "read FullStep True False 0 0 (MD_REncoder 2 3) = Some (DIR_NONE, ?e1)"
    by (simp add: read_eval)
  have pos: "state ?e1 AND 0xf \<noteq> R_START" by (simp add: state_defs)
  then have pos': "state ?e1 AND 0xf \<noteq> R_START \<or> True = False" by simp
  have p2: "read FullStep (\<not> True) (\<not> False) 0 0 ?e1 = Some (DIR_NONE, ?e2)"
    by (simp add: read_eval)
  from out_of_sequence_resets [THEN conjunct2, rule_format, OF r p1 pos' p2] r p1 pos p2
  show ?thesis by simp
qed

section \<open>The speed estimator\<close>

text \<open>
  The fields \<^verbatim>\<open>_count\<close>, \<^verbatim>\<open>_period\<close> and \<^verbatim>\<open>_spd\<close> are \<^verbatim>\<open>uint16_t\<close>. With a 16-bit
  \<^verbatim>\<open>int\<close> the expression \<^verbatim>\<open>_count * (1000/_period)\<close> is computed in \<^verbatim>\<open>unsigned int\<close>;
  with a 32-bit \<^verbatim>\<open>int\<close> it is computed without overflow and cut to 16 bits by the
  assignment. Both give the product of 16-bit words used in \<open>read\<close>.
\<close>

lemma read_inside:
  assumes "read m a b t1 t2 e = Some (x, e')" and "t1 - timeLast e < ucast (period e)"
  shows "count e' = count e + (if x = DIR_NONE then 0 else 1)"
    and "timeLast e' = timeLast e" and "spd e' = spd e"
  using assms
  by (auto simp add: read_unfold DIR_NONE_def split: option.splits if_splits)

lemma read_boundary:
  assumes "read m a b t1 t2 e = Some (x, e')" and "ucast (period e) \<le> t1 - timeLast e"
  shows "spd e' = (count e + (if x = DIR_NONE then 0 else 1)) * (1000 div period e)"
    and "count e' = 0" and "timeLast e' = t2"
  using assms
  by (auto simp add: read_unfold DIR_NONE_def split: option.splits if_splits)

lemma clicks_Cons: "clicks (x # xs) = (if x = DIR_NONE then 0 else 1) + clicks xs"
  by (simp add: clicks_def)

lemma reads_inside:
  "\<forall>p \<in> set ps. poll_time p - timeLast e < ucast (period e) \<Longrightarrow>
   reads m ps e = Some (xs, e') \<Longrightarrow>
   count e' = count e + of_nat (clicks xs) \<and> timeLast e' = timeLast e \<and> spd e' = spd e"
proof (induction ps arbitrary: e xs)
  case Nil
  then show ?case by (simp add: clicks_def)
next
  case (Cons p ps)
  obtain a b t1 t2 where p: "p = (a, b, t1, t2)" by (cases p) auto
  from Cons.prems(2) obtain x e1 xs1 where
    r: "read m a b t1 t2 e = Some (x, e1)" and rs: "reads m ps e1 = Some (xs1, e')"
    and xs: "xs = x # xs1"
    by (auto simp add: p split: option.splits)
  from Cons.prems(1) have now: "t1 - timeLast e < ucast (period e)"
    and rest: "\<forall>p \<in> set ps. poll_time p - timeLast e < ucast (period e)"
    by (simp_all add: p poll_time_def)
  note one = read_inside [OF r now] read_SomeD(3) [OF r]
  from rest one have "\<forall>p \<in> set ps. poll_time p - timeLast e1 < ucast (period e1)" by simp
  from Cons.IH [OF this rs] one show ?case
    by (simp add: xs clicks_Cons)
qed

lemma window_count:
  assumes "count e = 0"
    and "\<forall>p \<in> set ps. poll_time p - timeLast e < ucast (period e)"
    and "reads m ps e = Some (xs, e1)"
    and "ucast (period e) \<le> t1 - timeLast e"
    and "read m a b t1 t2 e1 = Some (DIR_NONE, e2)"
  shows "speed e2 = of_nat (clicks xs) * (1000 div period e)" and "count e2 = 0"
    and "timeLast e2 = t2"
proof -
  from reads_inside [OF assms(2,3)] assms(1) reads_period [OF assms(3)]
  have e1: "count e1 = of_nat (clicks xs)" "timeLast e1 = timeLast e" "period e1 = period e"
    by simp_all
  from assms(4) e1 have "ucast (period e1) \<le> t1 - timeLast e1" by simp
  from read_boundary [OF assms(5) this] e1
  show "speed e2 = of_nat (clicks xs) * (1000 div period e)" and "count e2 = 0"
    and "timeLast e2 = t2"
    by (simp_all add: speed_def)
qed

lemma rate_as_number:
  fixes w :: u16
  assumes "n * (1000 div unat w) < 65536"
  shows "unat (of_nat n * (1000 div w)) = n * (1000 div unat w)"
proof -
  have d: "unat (1000 div w) = 1000 div unat w"
    by (simp add: unat_div)
  have "unat (of_nat n * (1000 div w) :: u16) = (n * (1000 div unat w)) mod 65536"
    by (simp add: unat_word_ariths d unat_of_nat mod_mult_left_eq mod_mult_right_eq)
  with assms show ?thesis by simp
qed

lemma rate_modulo:
  fixes c w :: u16
  shows "unat (c * (1000 div w)) = (unat c * (1000 div unat w)) mod 65536"
proof -
  have d: "unat (1000 div w) = 1000 div unat w"
    by (simp add: unat_div)
  show ?thesis by (simp add: unat_word_ariths d mod_mult_right_eq)
qed

lemma rate_of_clicks_modulo:
  fixes w :: u16
  shows "unat (of_nat n * (1000 div w)) = (n * (1000 div unat w)) mod 65536"
  by (simp add: rate_modulo unat_of_nat mod_mult_left_eq)

text \<open>
  C10. When a call of \<^verbatim>\<open>read()\<close> returns a direction and the time since the last boundary
  has reached the period, the speed stored by that call is computed from the count with
  this click added, \<open>(count + 1) * (1000 div period)\<close>, and only then is the count set to 0.
\<close>

theorem event_counted_in_closing_window:
  assumes "read m a b t1 t2 e = Some (x, e')"
    and "x \<noteq> DIR_NONE"
    and "ucast (period e) \<le> t1 - timeLast e"
  shows "speed e' = (count e + 1) * (1000 div period e) \<and> count e' = 0
     \<and> timeLast e' = t2"
  using assms
  by (auto simp add: read_unfold speed_def DIR_NONE_def split: option.splits if_splits)

text \<open>
  An instance: in \<^verbatim>\<open>R_CW_FINAL\<close> with three clicks counted and a period of 500, the pin
  state 11 at time 500 returns \<^verbatim>\<open>DIR_CW\<close> and stores the speed 4 * 2 = 8.
\<close>

theorem event_counted_in_closing_window_witness:
  "read FullStep True True 500 501
      \<lparr>pinA = 2, pinB = 3, state = R_CW_FINAL, period = 500, count = 3, spd = 0, timeLast = 0\<rparr>
    = Some (DIR_CW,
      \<lparr>pinA = 2, pinB = 3, state = R_START OR DIR_CW, period = 500, count = 0, spd = 8, timeLast = 501\<rparr>)
   \<and> DIR_CW \<noteq> DIR_NONE
   \<and> (ucast (500 :: u16) :: u32) \<le> 500 - 0
   \<and> speed \<lparr>pinA = 2, pinB = 3, state = R_START OR DIR_CW, period = 500, count = 0, spd = 8, timeLast = 501\<rparr>
       = (3 + 1) * (1000 div 500)"
proof -
  let ?e = "\<lparr>pinA = 2, pinB = 3, state = R_CW_FINAL, period = 500, count = 3, spd = 0, timeLast = 0 :: u32\<rparr>"
  let ?e' = "\<lparr>pinA = 2, pinB = 3, state = R_START OR DIR_CW, period = 500, count = 0, spd = 8, timeLast = 501 :: u32\<rparr>"
  have r: "read FullStep True True 500 501 ?e = Some (DIR_CW, ?e')"
    by (simp add: read_eval)
  have n: "DIR_CW \<noteq> DIR_NONE" by (simp add: dir_defs)
  have c: "ucast (period ?e) \<le> 500 - timeLast ?e" by simp
  from event_counted_in_closing_window [OF r n c] r n show ?thesis by simp
qed

text \<open>
  Runs of full-step cycles 01, 00, 10, 11 polled while the clock reads 0, with a period of
  1 ms: every cycle adds one click and none crosses the window.
\<close>

lemma reads_append:
  "reads m (ps @ qs) e =
     (case reads m ps e of
        None \<Rightarrow> None
      | Some (xs, e1) \<Rightarrow>
          (case reads m qs e1 of
             None \<Rightarrow> None
           | Some (ys, e2) \<Rightarrow> Some (xs @ ys, e2)))"
proof (induction ps arbitrary: e)
  case Nil
  show ?case by (simp split: option.split)
next
  case (Cons p ps)
  obtain a b t1 t2 where p: "p = (a, b, t1, t2)" by (cases p) auto
  show ?case by (simp add: p Cons.IH split: option.split)
qed

lemma one_cycle:
  assumes "state e AND 0xf = 0" and "period e = 1" and "timeLast e = 0"
  shows "reads FullStep
           [(True, False, 0, 0), (False, False, 0, 0), (False, True, 0, 0), (True, True, 0, 0)] e
         = Some ([DIR_NONE, DIR_NONE, DIR_NONE, DIR_CW],
                 e\<lparr>state := R_START OR DIR_CW, count := count e + 1\<rparr>)"
  using assms by (simp add: read_unfold decode_eval)

lemma cycles:
  assumes "state e AND 0xf = 0" and "period e = 1" and "timeLast e = 0"
  shows "reads FullStep
           (concat (replicate n
              [(True, False, 0, 0), (False, False, 0, 0), (False, True, 0, 0), (True, True, 0, 0)])) e
         = Some (concat (replicate n [DIR_NONE, DIR_NONE, DIR_NONE, DIR_CW]),
                 e\<lparr>state := (if n = 0 then state e else R_START OR DIR_CW),
                   count := count e + of_nat n\<rparr>)"
  using assms
proof (induction n arbitrary: e)
  case 0
  show ?case by simp
next
  case (Suc n)
  let ?cyc = "[(True, False, 0, 0), (False, False, 0, 0), (False, True, 0, 0), (True, True, 0, 0)] :: poll list"
  let ?evs = "[DIR_NONE, DIR_NONE, DIR_NONE, DIR_CW]"
  let ?e1 = "e\<lparr>state := R_START OR DIR_CW, count := count e + 1\<rparr>"
  have e1: "state ?e1 AND 0xf = 0" "period ?e1 = 1" "timeLast ?e1 = 0"
    using Suc.prems by (simp_all add: state_defs dir_defs)
  have "reads FullStep (concat (replicate (Suc n) ?cyc)) e
      = reads FullStep (?cyc @ concat (replicate n ?cyc)) e"
    by simp
  also have "\<dots> = (case reads FullStep (concat (replicate n ?cyc)) ?e1 of
                       None \<Rightarrow> None
                     | Some (ys, e2) \<Rightarrow> Some (?evs @ ys, e2))"
    by (simp only: reads_append one_cycle [OF Suc.prems] option.case prod.case)
  also have "\<dots> = Some (?evs @ concat (replicate n ?evs),
                 ?e1\<lparr>state := (if n = 0 then state ?e1 else R_START OR DIR_CW),
                     count := count ?e1 + of_nat n\<rparr>)"
    by (simp only: Suc.IH [OF e1] option.case prod.case)
  finally show ?case by (simp add: add.assoc)
qed

text \<open>
  C5, as the code has it. The count, the period and the speed are 16-bit fields: \<open>div\<close> is
  the truncating division, and the product is stored modulo \<open>2 ^ 16\<close>.

  First, for any call of \<^verbatim>\<open>read()\<close>, in any state: if the first clock reading \<open>t1\<close> is at
  least one period after \<^verbatim>\<open>_timeLast\<close>, the stored speed becomes the count (with the click
  of this call, if it returned one) times \<open>1000 div period\<close>, modulo \<open>2 ^ 16\<close>; the count
  becomes 0, and \<^verbatim>\<open>_timeLast\<close> becomes the second clock reading \<open>t2\<close>, which is \<open>t1\<close> when
  the clock did not tick in between.

  Second, start with a count of 0 and make any run of polls that all stay inside the window;
  \<open>clicks xs\<close> of them return a direction. If a poll at or after the end of the window then
  returns \<^verbatim>\<open>DIR_NONE\<close>, \<^verbatim>\<open>speed()\<close> is \<open>clicks xs * (1000 div period)\<close> modulo \<open>2 ^ 16\<close>:
  that number itself whenever it is below \<open>2 ^ 16\<close>, and 0 when no poll of the window
  returned a direction. The count is 0 again and the next window starts at \<open>t2\<close>.
\<close>

theorem window_rate:
  "(\<forall>m a b t1 t2 e x e'.
      read m a b t1 t2 e = Some (x, e') \<longrightarrow> ucast (period e) \<le> t1 - timeLast e \<longrightarrow>
      speed e' = (count e + (if x = DIR_NONE then 0 else 1)) * (1000 div period e)
      \<and> unat (speed e')
          = (unat (count e + (if x = DIR_NONE then 0 else 1)) * (1000 div unat (period e)))
            mod 65536
      \<and> count e' = 0 \<and> timeLast e' = t2)
   \<and> (\<forall>m ps e xs e1 a b t1 t2 e2.
      count e = 0 \<longrightarrow> (\<forall>p \<in> set ps. poll_time p - timeLast e < ucast (period e)) \<longrightarrow>
      reads m ps e = Some (xs, e1) \<longrightarrow>
      ucast (period e) \<le> t1 - timeLast e \<longrightarrow> read m a b t1 t2 e1 = Some (DIR_NONE, e2) \<longrightarrow>
      speed e2 = of_nat (clicks xs) * (1000 div period e)
      \<and> unat (speed e2) = (clicks xs * (1000 div unat (period e))) mod 65536
      \<and> (clicks xs * (1000 div unat (period e)) < 65536 \<longrightarrow>
           unat (speed e2) = clicks xs * (1000 div unat (period e)))
      \<and> (clicks xs = 0 \<longrightarrow> speed e2 = 0)
      \<and> count e2 = 0 \<and> timeLast e2 = t2)"
proof (intro conjI allI impI)
  fix m a b t1 t2 e x e'
  assume r: "read m a b t1 t2 e = Some (x, e')" and c: "ucast (period e) \<le> t1 - timeLast e"
  note b = read_boundary [OF r c]
  from b show "speed e' = (count e + (if x = DIR_NONE then 0 else 1)) * (1000 div period e)"
    and "count e' = 0" and "timeLast e' = t2"
    by (simp_all add: speed_def)
  from b(1) show "unat (speed e')
      = (unat (count e + (if x = DIR_NONE then 0 else 1)) * (1000 div unat (period e))) mod 65536"
    by (simp only: speed_def rate_modulo)
next
  fix m ps e xs e1 a b t1 t2 e2
  assume h: "count e = 0" "\<forall>p \<in> set ps. poll_time p - timeLast e < ucast (period e)"
    "reads m ps e = Some (xs, e1)" "ucast (period e) \<le> t1 - timeLast e"
    "read m a b t1 t2 e1 = Some (DIR_NONE, e2)"
  note w = window_count [OF h]
  from w show "speed e2 = of_nat (clicks xs) * (1000 div period e)"
    and "count e2 = 0" and "timeLast e2 = t2" by simp_all
  from w(1) show "unat (speed e2) = (clicks xs * (1000 div unat (period e))) mod 65536"
    by (simp only: rate_of_clicks_modulo)
  { assume "clicks xs * (1000 div unat (period e)) < 65536"
    from rate_as_number [OF this] w(1)
    show "unat (speed e2) = clicks xs * (1000 div unat (period e))" by simp }
  { assume "clicks xs = 0"
    with w(1) show "speed e2 = 0" by simp }
qed

text \<open>
  C5 as the claim words it does not hold once the product no longer fits in 16 bits. Set
  the period to 1 ms, and in full-step mode poll 66 complete cycles 01, 00, 10, 11 while the
  clock reads 0: 66 polls return \<^verbatim>\<open>DIR_CW\<close>, all inside the first window. The poll at 1 ms
  returns \<^verbatim>\<open>DIR_NONE\<close> and stores the speed 464, which is 66000 modulo \<open>2 ^ 16\<close>, not
  66 * (1000 div 1) = 66000.
\<close>

theorem rate_wraps_at_16_bits:
  "map_option (unat \<circ> speed \<circ> snd)
     (reads FullStep
        (concat (replicate 66
           [(True, False, 0, 0), (False, False, 0, 0), (False, True, 0, 0), (True, True, 0, 0)])
         @ [(True, True, 1, 1)])
        (setPeriod 1 (MD_REncoder 2 3))) = Some 464
   \<and> map_option fst
     (reads FullStep
        (concat (replicate 66
           [(True, False, 0, 0), (False, False, 0, 0), (False, True, 0, 0), (True, True, 0, 0)])
         @ [(True, True, 1, 1)])
        (setPeriod 1 (MD_REncoder 2 3)))
     = Some (concat (replicate 66 [DIR_NONE, DIR_NONE, DIR_NONE, DIR_CW]) @ [DIR_NONE])
   \<and> clicks (concat (replicate 66 [DIR_NONE, DIR_NONE, DIR_NONE, DIR_CW]) @ [DIR_NONE]) = 66
   \<and> (464 :: nat) \<noteq> 66 * (1000 div 1)"
proof -
  let ?e = "setPeriod 1 (MD_REncoder 2 3)"
  have e: "state ?e AND 0xf = 0" "period ?e = 1" "timeLast ?e = 0"
    by (simp_all add: setPeriod_def new_fields)
  have c: "clicks (concat (replicate n [DIR_NONE, DIR_NONE, DIR_NONE, DIR_CW]) @ [DIR_NONE]) = n" for n
    by (induction n) (simp_all add: clicks_def dir_defs)
  show ?thesis
    by (simp add: reads_append cycles [OF e] c)
       (simp add: setPeriod_def read_eval speed_def)
qed

text \<open>
  An instance, in full-step mode with a period of 300 ms: two complete cycles inside the
  first window give two clicks, the poll at 300 ms stores the speed 2 * 3 = 6, and after a
  second window without a click the poll at 601 ms stores the speed 0.
\<close>

theorem window_rate_witness:
  "count (setPeriod 300 (MD_REncoder 2 3)) = 0
   \<and> list_all (\<lambda>p. poll_time p - timeLast (setPeriod 300 (MD_REncoder 2 3))
                    < ucast (period (setPeriod 300 (MD_REncoder 2 3))))
        [(True, False, 10, 10), (False, False, 20, 20), (False, True, 30, 30), (True, True, 40, 40),
         (True, False, 50, 50), (False, False, 60, 60), (False, True, 70, 70), (True, True, 80, 80)]
   \<and> reads FullStep
        [(True, False, 10, 10), (False, False, 20, 20), (False, True, 30, 30), (True, True, 40, 40),
         (True, False, 50, 50), (False, False, 60, 60), (False, True, 70, 70), (True, True, 80, 80)]
        (setPeriod 300 (MD_REncoder 2 3))
       = Some ([DIR_NONE, DIR_NONE, DIR_NONE, DIR_CW, DIR_NONE, DIR_NONE, DIR_NONE, DIR_CW],
               MD_REncoder 2 3\<lparr>state := R_START OR DIR_CW, period := 300, count := 2\<rparr>)
   \<and> ucast (period (setPeriod 300 (MD_REncoder 2 3))) \<le> 300 - timeLast (setPeriod 300 (MD_REncoder 2 3))
   \<and> read FullStep True True 300 301 (MD_REncoder 2 3\<lparr>state := R_START OR DIR_CW, period := 300, count := 2\<rparr>)
       = Some (DIR_NONE, MD_REncoder 2 3\<lparr>period := 300, spd := 6, timeLast := 301\<rparr>)
   \<and> clicks [DIR_NONE, DIR_NONE, DIR_NONE, DIR_CW, DIR_NONE, DIR_NONE, DIR_NONE, DIR_CW] = 2
   \<and> speed (MD_REncoder 2 3\<lparr>period := 300, spd := 6, timeLast := 301\<rparr>) = 2 * (1000 div 300)
   \<and> unat (speed (MD_REncoder 2 3\<lparr>period := 300, spd := 6, timeLast := 301\<rparr>)) = 6
   \<and> reads FullStep [(True, True, 400, 400)] (MD_REncoder 2 3\<lparr>period := 300, spd := 6, timeLast := 301\<rparr>)
       = Some ([DIR_NONE], MD_REncoder 2 3\<lparr>period := 300, spd := 6, timeLast := 301\<rparr>)
   \<and> read FullStep True True 601 602 (MD_REncoder 2 3\<lparr>period := 300, spd := 6, timeLast := 301\<rparr>)
       = Some (DIR_NONE, MD_REncoder 2 3\<lparr>period := 300, spd := 0, timeLast := 602\<rparr>)
   \<and> speed (MD_REncoder 2 3\<lparr>period := 300, spd := 0, timeLast := 602\<rparr>) = 0"
proof -
  let ?e = "setPeriod 300 (MD_REncoder 2 3)"
  let ?ps = "[(True, False, 10, 10), (False, False, 20, 20), (False, True, 30, 30), (True, True, 40, 40),
         (True, False, 50, 50), (False, False, 60, 60), (False, True, 70, 70), (True, True, 80, 80)] :: poll list"
  let ?xs = "[DIR_NONE, DIR_NONE, DIR_NONE, DIR_CW, DIR_NONE, DIR_NONE, DIR_NONE, DIR_CW]"
  let ?e1 = "MD_REncoder 2 3\<lparr>state := R_START OR DIR_CW, period := 300, count := 2\<rparr>"
  let ?e2 = "MD_REncoder 2 3\<lparr>period := 300, spd := 6, timeLast := 301\<rparr>"
  let ?e4 = "MD_REncoder 2 3\<lparr>period := 300, spd := 0, timeLast := 602\<rparr>"
  have c0: "count ?e = 0" by (simp add: setPeriod_def new_fields)
  have in1: "\<forall>p \<in> set ?ps. poll_time p - timeLast ?e < ucast (period ?e)"
    by (simp add: setPeriod_def new_fields poll_time_def)
  have run1: "reads FullStep ?ps ?e = Some (?xs, ?e1)"
    by (simp add: setPeriod_def read_eval)
  have b1: "ucast (period ?e) \<le> 300 - timeLast ?e"
    by (simp add: setPeriod_def new_fields)
  have p1: "read FullStep True True 300 301 ?e1 = Some (DIR_NONE, ?e2)"
    by (simp add: read_eval)
  have n: "clicks ?xs = 2" by (simp add: clicks_def dir_defs)
  have c2: "count ?e2 = 0" by (simp add: new_fields)
  have in2: "\<forall>p \<in> set [(True, True, 400, 400)]. poll_time p - timeLast ?e2 < ucast (period ?e2)"
    by (simp add: poll_time_def)
  have run2: "reads FullStep [(True, True, 400, 400)] ?e2 = Some ([DIR_NONE], ?e2)"
    by (simp add: read_eval)
  have b2: "ucast (period ?e2) \<le> 601 - timeLast ?e2" by simp
  have p2: "read FullStep True True 601 602 ?e2 = Some (DIR_NONE, ?e4)"
    by (simp add: read_eval)
  have z: "clicks [DIR_NONE] = 0" by (simp add: clicks_def)
  from window_rate [THEN conjunct2, rule_format, OF c0 in1 [rule_format] run1 b1 p1]
  have first: "speed ?e2 = of_nat (clicks ?xs) * (1000 div period ?e)" by (rule conjunct1)
  from window_rate [THEN conjunct2, rule_format, OF c2 in2 [rule_format] run2 b2 p2]
  have second: "clicks [DIR_NONE] = 0 \<longrightarrow> speed ?e4 = 0" by blast
  have s1: "speed ?e2 = 2 * (1000 div 300)"
    using first n by (simp add: setPeriod_def new_fields)
  have s2: "speed ?e4 = 0" using second z by simp
  have u: "unat (speed ?e2) = 6" using s1 by simp
  from c0 in1 run1 b1 p1 n s1 u run2 p2 s2 show ?thesis by simp
qed

end
